theory Spec2Isabelle
  imports Main "HOL-Library.Sublist" "HOL-Library.AList"
begin

section \<open>Python string operations used by gencontent.py\<close>

text \<open>
  Python strings are modelled as \<open>string\<close>. Only the operations that
  \<^verbatim>\<open>gencontent.py\<close> calls are modelled: \<^verbatim>\<open>startswith\<close>, \<^verbatim>\<open>endswith\<close>,
  \<^verbatim>\<open>split("\n")\<close>, slicing \<^verbatim>\<open>line[2:]\<close>, \<^verbatim>\<open>replace\<close> and \<^verbatim>\<open>rstrip("/")\<close>.
  All of them work character by character and every literal of the source is
  ASCII, so nothing below depends on how wide a character is.
\<close>

definition startswith :: "string \<Rightarrow> string \<Rightarrow> bool" where
  "startswith s p = (take (length p) s = p)"

definition endswith :: "string \<Rightarrow> string \<Rightarrow> bool" where
  "endswith s p = (length p \<le> length s \<and> drop (length s - length p) s = p)"

text \<open>\<^verbatim>\<open>s.split("\n")\<close>: always at least one piece; the pieces contain no newline.\<close>

definition newline :: char where
  "newline = CHR 0x0A"

fun split_nl :: "string \<Rightarrow> string list" where
  "split_nl [] = [[]]"
| "split_nl (c # cs) =
     (if c = newline then [] # split_nl cs
      else (case split_nl cs of
              [] \<Rightarrow> [[c]]
            | l # ls \<Rightarrow> (c # l) # ls))"

text \<open>The inverse direction, \<^verbatim>\<open>"\n".join(lines)\<close>, used to state properties of documents.\<close>

fun join_nl :: "string list \<Rightarrow> string" where
  "join_nl [] = []"
| "join_nl [l] = l"
| "join_nl (l # m # ls) = l @ newline # join_nl (m # ls)"

text \<open>
  \<^verbatim>\<open>s.replace(old, new)\<close>: a left-to-right scan that replaces each match and
  continues after it, so matches never overlap and the inserted text is not
  scanned again. With an empty \<open>old\<close>, Python inserts \<open>new\<close> before every
  character and at the end.
\<close>

fun str_replace :: "string \<Rightarrow> string \<Rightarrow> string \<Rightarrow> string" where
  "str_replace [] old new = (if old = [] then new else [])"
| "str_replace (c # cs) old new =
     (if old = [] then new @ c # str_replace cs old new
      else if startswith (c # cs) old
        then new @ str_replace (drop (length old) (c # cs)) old new
      else c # str_replace cs old new)"

text \<open>\<^verbatim>\<open>old in s\<close>: some position of \<open>s\<close> starts with \<open>old\<close>.\<close>

fun contains :: "string \<Rightarrow> string \<Rightarrow> bool" where
  "contains [] old = (old = [])"
| "contains (c # cs) old = (startswith (c # cs) old \<or> contains cs old)"

text \<open>\<^verbatim>\<open>s.rstrip("/")\<close>: drops every trailing slash.\<close>

definition rstrip_slash :: "string \<Rightarrow> string" where
  "rstrip_slash s = rev (dropWhile (\<lambda>c. c = CHR ''/'') (rev s))"

section \<open>Errors\<close>

text \<open>
  \<open>ValueError\<close> carries the message of the \<^verbatim>\<open>raise\<close> in \<^verbatim>\<open>extract_title\<close>;
  \<open>OSError\<close> stands for every failure of \<^verbatim>\<open>open\<close> and \<^verbatim>\<open>os.makedirs\<close>;
  \<open>RenderError\<close> for whatever the Markdown renderer may raise.
\<close>

datatype error = ValueError string | OSError | RenderError

section \<open>Title extraction\<close>

text \<open>The \<^verbatim>\<open>for line in lines\<close> loop of \<^verbatim>\<open>extract_title\<close>.\<close>

fun first_title :: "string list \<Rightarrow> error + string" where
  "first_title [] = Inl (ValueError ''No title found in markdown'')"
| "first_title (line # lines) =
     (if startswith line ''# '' then Inr (drop 2 line) else first_title lines)"

definition extract_title :: "string \<Rightarrow> error + string" where
  "extract_title md = first_title (split_nl md)"

section \<open>Template substitution and URL rewriting\<close>

text \<open>
  The string literals of \<^verbatim>\<open>generate_page\<close>. \<open>dq\<close> is the double quote
  character that follows \<^verbatim>\<open>href=\<close> and \<^verbatim>\<open>src=\<close>.
\<close>

definition dq :: string where
  "dq = [CHR 0x22]"

definition title_token :: string where
  "title_token = ''{{ Title }}''"

definition content_token :: string where
  "content_token = ''{{ Content }}''"

definition href_open :: string where
  "href_open = ''href='' @ dq"

definition src_open :: string where
  "src_open = ''src='' @ dq"

definition href_site :: string where
  "href_site = href_open @ ''HTMLStaticSite''"

definition src_site :: string where
  "src_site = src_open @ ''HTMLStaticSite''"

definition href_root :: string where
  "href_root = href_open @ ''/''"

definition src_root :: string where
  "src_root = src_open @ ''/''"

text \<open>Lines 21-22: the title is substituted first, the content second, on the result.\<close>

definition substitute :: "string \<Rightarrow> string \<Rightarrow> string \<Rightarrow> string" where
  "substitute template title html_content =
     str_replace (str_replace template title_token title) content_token html_content"

text \<open>Lines 27-28.\<close>

definition normalize_basepath :: "string \<Rightarrow> string" where
  "normalize_basepath basepath =
     (if \<not> endswith basepath ''/'' then basepath @ ''/'' else basepath)"

text \<open>Lines 31-34, on the normalized base path: four replacements in this order.\<close>

definition fix_urls :: "string \<Rightarrow> string \<Rightarrow> string" where
  "fix_urls html basepath =
     (let html1 = str_replace html href_site (href_open @ basepath);
          html2 = str_replace html1 src_site (src_open @ basepath);
          html3 = str_replace html2 href_root (href_open @ rstrip_slash basepath @ ''/'');
          html4 = str_replace html3 src_root (src_open @ rstrip_slash basepath @ ''/'')
      in html4)"

text \<open>The text that \<^verbatim>\<open>generate_page\<close> writes, from what it has read and rendered.\<close>

definition page_html :: "string \<Rightarrow> string \<Rightarrow> string \<Rightarrow> string \<Rightarrow> string" where
  "page_html template title html_content basepath =
     fix_urls (substitute template title html_content) (normalize_basepath basepath)"

section \<open>The file system\<close>

text \<open>
  A path is the list of its components, relative to the root of the tree; a
  node is a file with its text or a directory with its entries in listing
  order. \<^verbatim>\<open>os.path.join\<close> of a directory and a relative path is \<open>@\<close>, and
  \<^verbatim>\<open>os.path.relpath(root, content_dir)\<close> of a directory below \<open>content_dir\<close> is
  what remains after the components of \<open>content_dir\<close> (the empty list for
  \<^verbatim>\<open>"."\<close>).
\<close>

type_synonym path = "string list"

datatype node = File string | Dir "(string \<times> node) list"

fun lookup :: "node \<Rightarrow> path \<Rightarrow> node option" where
  "lookup n [] = Some n"
| "lookup (File c) (x # p) = None"
| "lookup (Dir es) (x # p) =
     (case map_of es x of None \<Rightarrow> None | Some n \<Rightarrow> lookup n p)"

text \<open>\<^verbatim>\<open>open(p, 'r').read()\<close>: fails unless \<open>p\<close> is an existing file.\<close>

definition read_file :: "node \<Rightarrow> path \<Rightarrow> error + string" where
  "read_file fs p =
     (case lookup fs p of
        Some (File c) \<Rightarrow> Inr c
      | Some (Dir es) \<Rightarrow> Inl OSError
      | None \<Rightarrow> Inl OSError)"

text \<open>
  \<^verbatim>\<open>open(p, 'w').write(c)\<close>: creates or truncates the file; fails when the parent
  directory does not exist or \<open>p\<close> is a directory. Nothing changes on failure.
\<close>

fun write_file :: "node \<Rightarrow> path \<Rightarrow> string \<Rightarrow> error + node" where
  "write_file (File old) [] c = Inr (File c)"
| "write_file (Dir es) [] c = Inl OSError"
| "write_file (File old) (x # p) c = Inl OSError"
| "write_file (Dir es) (x # p) c =
     (case map_of es x of
        None \<Rightarrow> (if p = [] then Inr (Dir (es @ [(x, File c)])) else Inl OSError)
      | Some n \<Rightarrow>
          (case write_file n p c of
             Inl e \<Rightarrow> Inl e
           | Inr n' \<Rightarrow> Inr (Dir (AList.update x n' es))))"

text \<open>
  \<^verbatim>\<open>os.makedirs(p, exist_ok=True)\<close>: creates every missing directory on the way;
  fails when a component exists and is a file, before anything is created.
\<close>

fun makedirs :: "node \<Rightarrow> path \<Rightarrow> error + node" where
  "makedirs (File c) p = Inl OSError"
| "makedirs (Dir es) [] = Inr (Dir es)"
| "makedirs (Dir es) (x # p) =
     (case makedirs (case map_of es x of None \<Rightarrow> Dir [] | Some n \<Rightarrow> n) p of
        Inl e \<Rightarrow> Inl e
      | Inr n' \<Rightarrow> Inr (Dir (AList.update x n' es)))"

fun is_file :: "node \<Rightarrow> bool" where
  "is_file (File c) = True"
| "is_file (Dir es) = False"

text \<open>
  \<^verbatim>\<open>os.walk(top)\<close>, top-down: each directory with the names of its files, then
  its subdirectories in turn; nothing for a path that is not a directory. The
  tree is walked as it is when the walk starts: the pages written during the
  walk have names ending in \<^verbatim>\<open>.html\<close> (see \<open>output_filename\<close>), so they are never
  picked up as input.
\<close>

fun walk :: "path \<Rightarrow> node \<Rightarrow> (path \<times> string list) list"
  and walk_entries :: "path \<Rightarrow> (string \<times> node) list \<Rightarrow> (path \<times> string list) list" where
  "walk root (File c) = []"
| "walk root (Dir es) =
     (root, map fst (filter (\<lambda>e. is_file (snd e)) es)) # walk_entries root es"
| "walk_entries root [] = []"
| "walk_entries root (e # es) = walk (root @ [fst e]) (snd e) @ walk_entries root es"

section \<open>Page generation\<close>

text \<open>
  \<^verbatim>\<open>markdown_to_html_node(markdown).to_html()\<close> lives in another module; it is the
  parameter \<open>render\<close>, which may fail.
\<close>

type_synonym renderer = "string \<Rightarrow> error + string"

definition generate_page ::
  "renderer \<Rightarrow> node \<Rightarrow> path \<Rightarrow> path \<Rightarrow> path \<Rightarrow> string \<Rightarrow> (error + unit) \<times> node" where
  "generate_page render fs input_path template_path output_path basepath =
     (case read_file fs input_path of
        Inl e \<Rightarrow> (Inl e, fs)
      | Inr markdown \<Rightarrow>
     (case extract_title markdown of
        Inl e \<Rightarrow> (Inl e, fs)
      | Inr title \<Rightarrow>
     (case render markdown of
        Inl e \<Rightarrow> (Inl e, fs)
      | Inr html_content \<Rightarrow>
     (case read_file fs template_path of
        Inl e \<Rightarrow> (Inl e, fs)
      | Inr template \<Rightarrow>
     (case write_file fs output_path (page_html template title html_content basepath) of
        Inl e \<Rightarrow> (Inl e, fs)
      | Inr fs' \<Rightarrow> (Inr (), fs'))))))"

text \<open>Line 50.\<close>

definition output_filename :: "string \<Rightarrow> string" where
  "output_filename file = str_replace file ''.md'' ''.html''"

text \<open>The inner loop \<^verbatim>\<open>for file in files\<close>; the first error ends the run.\<close>

fun generate_files ::
  "renderer \<Rightarrow> path \<Rightarrow> path \<Rightarrow> path \<Rightarrow> string \<Rightarrow> path \<Rightarrow> string list \<Rightarrow> node
     \<Rightarrow> (error + unit) \<times> node" where
  "generate_files render content_dir template_path output_dir basepath root [] fs = (Inr (), fs)"
| "generate_files render content_dir template_path output_dir basepath root (file # files) fs =
     (if endswith file ''.md'' then
        (let rel_dir = drop (length content_dir) root;
             input_path = root @ [file];
             output_subdir = output_dir @ rel_dir
         in case makedirs fs output_subdir of
              Inl e \<Rightarrow> (Inl e, fs)
            | Inr fs1 \<Rightarrow>
                (let output_path = output_subdir @ [output_filename file]
                 in case generate_page render fs1 input_path template_path output_path basepath of
                      (Inl e, fs2) \<Rightarrow> (Inl e, fs2)
                    | (Inr u, fs2) \<Rightarrow>
                        generate_files render content_dir template_path output_dir basepath
                          root files fs2))
      else generate_files render content_dir template_path output_dir basepath root files fs)"

text \<open>The outer loop over the directories that \<^verbatim>\<open>os.walk\<close> yields.\<close>

fun generate_dirs ::
  "renderer \<Rightarrow> path \<Rightarrow> path \<Rightarrow> path \<Rightarrow> string \<Rightarrow> (path \<times> string list) list \<Rightarrow> node
     \<Rightarrow> (error + unit) \<times> node" where
  "generate_dirs render content_dir template_path output_dir basepath [] fs = (Inr (), fs)"
| "generate_dirs render content_dir template_path output_dir basepath ((root, files) # rest) fs =
     (case generate_files render content_dir template_path output_dir basepath root files fs of
        (Inl e, fs') \<Rightarrow> (Inl e, fs')
      | (Inr u, fs') \<Rightarrow>
          generate_dirs render content_dir template_path output_dir basepath rest fs')"

definition generate_pages_recursive ::
  "renderer \<Rightarrow> node \<Rightarrow> path \<Rightarrow> path \<Rightarrow> path \<Rightarrow> string \<Rightarrow> (error + unit) \<times> node" where
  "generate_pages_recursive render fs content_dir template_path output_dir basepath =
     generate_dirs render content_dir template_path output_dir basepath
       (case lookup fs content_dir of None \<Rightarrow> [] | Some n \<Rightarrow> walk content_dir n) fs"

section \<open>Occurrences of a pattern\<close>

text \<open>
  Notions used to state where \<open>str_replace\<close> acts. An occurrence of \<open>old\<close>
  straddles the boundary between \<open>u\<close> and \<open>v\<close> when a proper part of it
  ends \<open>u\<close> and the rest begins \<open>v\<close>. A pattern is border free when no proper
  prefix of it is also a suffix, so that two occurrences never overlap.
  \<open>clear_left\<close> and \<open>clear_right\<close> are the executable checks that no occurrence
  of \<open>old\<close> can reach into \<open>x\<close> from the left, or leave it to the right.
\<close>

definition no_straddle :: "string \<Rightarrow> string \<Rightarrow> string \<Rightarrow> bool" where
  "no_straddle old u v =
     (\<forall>p s. p \<noteq> [] \<and> s \<noteq> [] \<and> old = p @ s \<and> suffix p u \<longrightarrow> \<not> prefix s v)"

definition border_free :: "string \<Rightarrow> bool" where
  "border_free old = list_all (\<lambda>n. take n old \<noteq> drop (length old - n) old) [1..<length old]"

definition clear_left :: "string \<Rightarrow> string \<Rightarrow> bool" where
  "clear_left old x =
     list_all (\<lambda>n. \<not> prefix (drop n old) x \<and> \<not> prefix x (drop n old)) [1..<length old]"

definition clear_right :: "string \<Rightarrow> string \<Rightarrow> bool" where
  "clear_right old x = list_all (\<lambda>n. \<not> suffix (take n old) x) [1..<length old]"

text \<open>
  The cuts of \<open>old\<close> at which an occurrence could start at the end of \<open>pre\<close>
  and go on into whatever follows.
\<close>

definition straddle_points :: "string \<Rightarrow> string \<Rightarrow> nat list" where
  "straddle_points old pre = filter (\<lambda>k. suffix (take k old) pre) [1..<length old]"

section \<open>The URL replacements as a list of passes\<close>

text \<open>
  Lines 31-34 are four calls of \<^verbatim>\<open>replace\<close> in a row; \<open>url_passes\<close> lists their
  patterns and replacements in the order of the source, and \<open>run_passes\<close> applies
  such a list from left to right (\<open>fix_urls_passes\<close> below shows that this is
  \<open>fix_urls\<close>). A piece of text is \<open>isolated_through\<close> the passes when, at each
  pass, no occurrence of the pattern can overlap the boundary of what the
  earlier passes made of the piece.
\<close>

fun run_passes :: "string \<Rightarrow> (string \<times> string) list \<Rightarrow> string" where
  "run_passes html [] = html"
| "run_passes html (p # ps) = run_passes (str_replace html (fst p) (snd p)) ps"

definition url_passes :: "string \<Rightarrow> (string \<times> string) list" where
  "url_passes basepath =
     [(href_site, href_open @ basepath),
      (src_site, src_open @ basepath),
      (href_root, href_open @ rstrip_slash basepath @ ''/''),
      (src_root, src_open @ rstrip_slash basepath @ ''/'')]"

fun isolated_through :: "(string \<times> string) list \<Rightarrow> string \<Rightarrow> bool" where
  "isolated_through [] x = True"
| "isolated_through (p # ps) x =
     (fst p \<noteq> [] \<and> clear_left (fst p) x \<and> clear_right (fst p) x
      \<and> isolated_through ps (str_replace x (fst p) (snd p)))"

section \<open>The files of a tree and the paths the generator writes\<close>

text \<open>
  \<open>is_file_at fs p\<close>: the path \<open>p\<close> names a file of \<open>fs\<close>. \<open>output_paths\<close>
  lists the output paths that the inner loop computes for one directory of the
  walk, one for each file name that ends with \<^verbatim>\<open>.md\<close>; \<open>all_output_paths\<close>
  collects them over the whole walk.
\<close>

definition is_file_at :: "node \<Rightarrow> path \<Rightarrow> bool" where
  "is_file_at fs p =
     (case lookup fs p of Some (File c) \<Rightarrow> True | Some (Dir es) \<Rightarrow> False | None \<Rightarrow> False)"

definition output_paths :: "path \<Rightarrow> path \<Rightarrow> path \<Rightarrow> string list \<Rightarrow> path list" where
  "output_paths content_dir output_dir root files =
     map (\<lambda>file. output_dir @ drop (length content_dir) root @ [output_filename file])
       (filter (\<lambda>file. endswith file ''.md'') files)"

definition all_output_paths :: "path \<Rightarrow> path \<Rightarrow> (path \<times> string list) list \<Rightarrow> path list" where
  "all_output_paths content_dir output_dir listing =
     concat (map (\<lambda>d. output_paths content_dir output_dir (fst d) (snd d)) listing)"

section \<open>A small site, for evaluating the generator\<close>

definition example_site :: node where
  "example_site =
     Dir [(''content'', Dir [(''design.md.md'', File ''# T'')]),
          (''template.html'', File ''{{ Title }}'')]"

section \<open>Facts about the string operations\<close>

lemma startswith_prefix: "startswith s p = prefix p s"
  unfolding startswith_def
  by (metis append_eq_conv_conj prefix_def)

lemma endswith_suffix: "endswith s p = suffix p s"
proof
  assume "endswith s p"
  then have "s = take (length s - length p) s @ p"
    unfolding endswith_def by (metis append_take_drop_id)
  then show "suffix p s" by (rule suffixI)
next
  assume "suffix p s"
  then obtain x where "s = x @ p" by (auto simp: suffix_def)
  then show "endswith s p" by (simp add: endswith_def)
qed

lemma no_straddle_suffix:
  assumes "no_straddle old u v" "suffix u' u"
  shows "no_straddle old u' v"
  unfolding no_straddle_def
proof (intro allI impI)
  fix p s
  assume h: "p \<noteq> [] \<and> s \<noteq> [] \<and> old = p @ s \<and> suffix p u'"
  then have "suffix p u" using assms(2) by (meson suffix_order.trans)
  with h assms(1) show "\<not> prefix s v" unfolding no_straddle_def by blast
qed

lemma prefix_append_cases:
  assumes "prefix old (u @ v)" "\<not> prefix old u"
  shows "\<exists>s. s \<noteq> [] \<and> old = u @ s \<and> prefix s v"
  using assms by (metis prefix_append append.right_neutral prefix_order.refl)

lemma str_replace_append:
  assumes "old \<noteq> []" "no_straddle old u v"
  shows "str_replace (u @ v) old new = str_replace u old new @ str_replace v old new"
  using assms
proof (induction u old new rule: str_replace.induct)
  case (1 old new)
  then show ?case by simp
next
  case (2 c cs old new)
  note ne = \<open>old \<noteq> []\<close>
  show ?case
  proof (cases "startswith (c # cs) old")
    case True
    then have pre: "prefix old (c # cs)" by (simp add: startswith_prefix)
    then have len: "length old \<le> length (c # cs)" by (rule prefix_length_le)
    have sw: "startswith ((c # cs) @ v) old"
      using pre by (simp add: startswith_prefix del: append_Cons)
    have ns: "no_straddle old (drop (length old) (c # cs)) v"
      using "2.prems"(2) by (rule no_straddle_suffix) (rule suffix_drop)
    have "drop (length old) ((c # cs) @ v)
            = drop (length old) (c # cs) @ drop (length old - length (c # cs)) v"
      by (rule drop_append)
    with len have dr: "drop (length old) ((c # cs) @ v) = drop (length old) (c # cs) @ v"
      by (simp del: append_Cons drop_Suc_Cons)
    have "str_replace ((c # cs) @ v) old new
            = new @ str_replace (drop (length old) ((c # cs) @ v)) old new"
      using sw ne by simp
    also have "\<dots> = new @ str_replace (drop (length old) (c # cs)) old new @ str_replace v old new"
      using "2.IH"(2)[OF ne True ne ns] dr by simp
    also have "\<dots> = str_replace (c # cs) old new @ str_replace v old new"
      using True ne by simp
    finally show ?thesis .
  next
    case False
    then have npre: "\<not> prefix old (c # cs)" by (simp add: startswith_prefix)
    have "\<not> prefix old ((c # cs) @ v)"
    proof
      assume "prefix old ((c # cs) @ v)"
      from prefix_append_cases[OF this npre]
      obtain s where s: "s \<noteq> []" "old = (c # cs) @ s" "prefix s v" by blast
      with "2.prems"(2) show False unfolding no_straddle_def
        by (metis list.distinct(1) suffix_order.refl)
    qed
    then have nsw: "\<not> startswith ((c # cs) @ v) old" by (simp add: startswith_prefix)
    have ns: "no_straddle old cs v"
      using "2.prems"(2) by (rule no_straddle_suffix) (simp add: suffix_Cons)
    have "str_replace ((c # cs) @ v) old new = c # str_replace (cs @ v) old new"
      using nsw ne by simp
    also have "\<dots> = c # str_replace cs old new @ str_replace v old new"
      using "2.IH"(3)[OF ne False ne ns] by simp
    also have "\<dots> = str_replace (c # cs) old new @ str_replace v old new"
      using False ne by simp
    finally show ?thesis .
  qed
qed

lemma str_replace_same:
  assumes "old \<noteq> []" "new = old"
  shows "str_replace s old new = s"
  using assms
proof (induction s old new rule: str_replace.induct)
  case (1 old new)
  then show ?case by simp
next
  case (2 c cs old new)
  show ?case
  proof (cases "startswith (c # cs) old")
    case True
    then have "take (length old) (c # cs) = old" by (simp add: startswith_def)
    then have "old @ drop (length old) (c # cs) = c # cs"
      by (metis append_take_drop_id)
    then show ?thesis using 2 True by simp
  next
    case False
    then show ?thesis using 2 by simp
  qed
qed

lemma contains_iff: "contains s old = (\<exists>u v. s = u @ old @ v)"
proof (induction s)
  case Nil
  then show ?case by simp
next
  case (Cons c cs)
  show ?case
  proof
    assume "contains (c # cs) old"
    then consider "startswith (c # cs) old" | "contains cs old" by auto
    then show "\<exists>u v. c # cs = u @ old @ v"
    proof cases
      case 1
      then show ?thesis unfolding startswith_prefix prefix_def by (metis append_Nil)
    next
      case 2
      then obtain u v where "cs = u @ old @ v" using Cons.IH by blast
      then have "c # cs = (c # u) @ old @ v" by simp
      then show ?thesis by blast
    qed
  next
    assume "\<exists>u v. c # cs = u @ old @ v"
    then obtain u v where uv: "c # cs = u @ old @ v" by blast
    show "contains (c # cs) old"
    proof (cases u)
      case Nil
      then have "prefix old (c # cs)" using uv by (metis append_Nil prefixI)
      then show ?thesis by (simp add: startswith_prefix)
    next
      case (Cons a u')
      then have "cs = u' @ old @ v" using uv by simp
      then have "contains cs old" using Cons.IH by blast
      then show ?thesis by simp
    qed
  qed
qed

lemma str_replace_absent:
  assumes "old \<noteq> []" "\<not> contains s old"
  shows "str_replace s old new = s"
  using assms by (induction s) simp_all

lemma not_contains_char:
  assumes "q \<in> set old" "q \<notin> set s"
  shows "\<not> contains s old"
proof
  assume "contains s old"
  then obtain u v where "s = u @ old @ v" unfolding contains_iff by blast
  then have "set old \<subseteq> set s" by auto
  with assms show False by blast
qed

lemma split_index:
  assumes "p \<noteq> []" "s \<noteq> []" "old = p @ s"
  shows "length p \<in> set [1..<length old] \<and> take (length p) old = p \<and> drop (length p) old = s"
proof -
  have "0 < length p" "0 < length s" using assms by simp_all
  then have "1 \<le> length p \<and> length p < length old" using assms(3) by (simp add: Suc_le_eq)
  then have "length p \<in> set [1..<length old]" by (simp only: set_upt atLeastLessThan_iff)
  then show ?thesis using assms(3) by simp
qed

lemma no_straddle_left:
  assumes "clear_left old x"
  shows "no_straddle old a (x @ b)"
  unfolding no_straddle_def
proof (intro allI impI)
  fix p s
  assume h: "p \<noteq> [] \<and> s \<noteq> [] \<and> old = p @ s \<and> suffix p a"
  then have ix: "length p \<in> set [1..<length old]" and dr: "drop (length p) old = s"
    using split_index by blast+
  from assms ix have "\<not> prefix (drop (length p) old) x \<and> \<not> prefix x (drop (length p) old)"
    unfolding clear_left_def list_all_iff by blast
  with dr have "\<not> prefix s x" "\<not> prefix x s" by simp_all
  then show "\<not> prefix s (x @ b)"
    by (metis prefix_append prefixI)
qed

lemma no_straddle_right:
  assumes "clear_right old x"
  shows "no_straddle old x b"
  unfolding no_straddle_def
proof (intro allI impI)
  fix p s
  assume h: "p \<noteq> [] \<and> s \<noteq> [] \<and> old = p @ s \<and> suffix p x"
  then have ix: "length p \<in> set [1..<length old]" and tk: "take (length p) old = p"
    using split_index by blast+
  from assms ix have "\<not> suffix (take (length p) old) x"
    unfolding clear_right_def list_all_iff by blast
  with tk h show "\<not> prefix s b" by simp
qed

lemma str_replace_isolated:
  assumes "old \<noteq> []" "clear_left old x" "clear_right old x"
  shows "str_replace (a @ x @ b) old new
           = str_replace a old new @ str_replace x old new @ str_replace b old new"
proof -
  have "str_replace (a @ x @ b) old new = str_replace a old new @ str_replace (x @ b) old new"
    using assms(1) no_straddle_left[OF assms(2)] by (rule str_replace_append)
  moreover have "str_replace (x @ b) old new = str_replace x old new @ str_replace b old new"
    using assms(1) no_straddle_right[OF assms(3)] by (rule str_replace_append)
  ultimately show ?thesis by simp
qed

lemma no_straddle_border_free:
  assumes "border_free old"
  shows "no_straddle old a (old @ b)"
  unfolding no_straddle_def
proof (intro allI impI notI)
  fix p s
  assume h: "p \<noteq> [] \<and> s \<noteq> [] \<and> old = p @ s \<and> suffix p a"
    and pre: "prefix s (old @ b)"
  have ls: "length s < length old" "0 < length s" using h by auto
  then have "prefix s old" using pre by (auto simp: prefix_append)
  then have tk: "take (length s) old = s" by (metis append_eq_conv_conj prefix_def)
  have dr: "drop (length old - length s) old = s" using h by auto
  have "1 \<le> length s \<and> length s < length old" using ls by (simp add: Suc_le_eq)
  then have "length s \<in> set [1..<length old]" by (simp only: set_upt atLeastLessThan_iff)
  with assms have "take (length s) old \<noteq> drop (length old - length s) old"
    unfolding border_free_def list_all_iff by blast
  with tk dr show False by simp
qed

lemma str_replace_prefix:
  assumes "old \<noteq> []"
  shows "str_replace (old @ b) old new = new @ str_replace b old new"
proof (cases "old @ b")
  case Nil
  then show ?thesis using assms by simp
next
  case (Cons c cs)
  have "startswith (old @ b) old" by (simp add: startswith_def)
  then have "str_replace (old @ b) old new = new @ str_replace (drop (length old) (old @ b)) old new"
    using assms unfolding Cons by simp
  then show ?thesis by simp
qed

lemma str_replace_occurrence:
  assumes "old \<noteq> []" "border_free old"
  shows "str_replace (a @ old @ b) old new
           = str_replace a old new @ new @ str_replace b old new"
proof -
  have "str_replace (a @ old @ b) old new = str_replace a old new @ str_replace (old @ b) old new"
    using assms(1) no_straddle_border_free[OF assms(2)] by (rule str_replace_append)
  then show ?thesis using str_replace_prefix[OF assms(1)] by simp
qed

lemma no_straddle_hd:
  assumes "x \<noteq> []" "hd x \<notin> set (tl old)"
  shows "no_straddle old a (x @ b)"
  unfolding no_straddle_def
proof (intro allI impI notI)
  fix p s
  assume h: "p \<noteq> [] \<and> s \<noteq> [] \<and> old = p @ s \<and> suffix p a" and pre: "prefix s (x @ b)"
  from h obtain c s' where s: "s = c # s'" by (cases s) auto
  from assms(1) obtain d x' where x: "x = d # x'" by (cases x) auto
  from pre s x have "c = d" by simp
  moreover have "c \<in> set (tl old)" using h s by (cases p) auto
  ultimately show False using assms(2) x by simp
qed

lemma no_straddle_last:
  assumes "x \<noteq> []" "last x \<notin> set (butlast old)"
  shows "no_straddle old x b"
  unfolding no_straddle_def
proof (intro allI impI notI)
  fix p s
  assume h: "p \<noteq> [] \<and> s \<noteq> [] \<and> old = p @ s \<and> suffix p x" and pre: "prefix s b"
  from h obtain y where "x = y @ p" by (auto simp: suffix_def)
  with h have "last x = last p" by simp
  moreover have "last p \<in> set p" using h by simp
  moreover have "set p \<subseteq> set (butlast old)" using h by (simp add: butlast_append)
  ultimately show False using assms(2) by auto
qed

lemma no_straddle_points:
  assumes "\<forall>k\<in>set (straddle_points old pre). \<not> prefix (drop k old) n"
  shows "no_straddle old pre n"
  unfolding no_straddle_def
proof (intro allI impI)
  fix p s
  assume h: "p \<noteq> [] \<and> s \<noteq> [] \<and> old = p @ s \<and> suffix p pre"
  then have ix: "length p \<in> set [1..<length old]" and tk: "take (length p) old = p"
    and dr: "drop (length p) old = s"
    using split_index by blast+
  then have "length p \<in> set (straddle_points old pre)"
    using h by (simp add: straddle_points_def)
  with assms dr show "\<not> prefix s n" by auto
qed

lemma str_replace_inert:
  assumes "old \<noteq> []" "x \<noteq> []" "hd x \<notin> set (tl old)" "last x \<notin> set (butlast old)"
    and "str_replace x old new = x"
  shows "str_replace (a @ x @ b) old new = str_replace a old new @ x @ str_replace b old new"
proof -
  have "str_replace (a @ x @ b) old new = str_replace a old new @ str_replace (x @ b) old new"
    using assms(1) no_straddle_hd[OF assms(2,3)] by (rule str_replace_append)
  moreover have "str_replace (x @ b) old new = str_replace x old new @ str_replace b old new"
    using assms(1) no_straddle_last[OF assms(2,4)] by (rule str_replace_append)
  ultimately show ?thesis using assms(5) by simp
qed

lemma opened_inert:
  assumes "old \<noteq> []" "pre \<noteq> []" "n \<noteq> []"
    and "hd pre \<notin> set (tl old)" "last n \<notin> set (butlast old)"
    and "\<not> contains pre old" "CHR 0x22 \<in> set old" "CHR 0x22 \<notin> set n"
    and "\<forall>k\<in>set (straddle_points old pre). \<not> prefix (drop k old) n"
  shows "str_replace (a @ pre @ n @ b) old new
           = str_replace a old new @ pre @ n @ str_replace b old new"
proof -
  have "str_replace (pre @ n) old new = str_replace pre old new @ str_replace n old new"
    using assms(1) no_straddle_points[OF assms(9)] by (rule str_replace_append)
  moreover have "str_replace pre old new = pre"
    using assms(1,6) by (rule str_replace_absent)
  moreover have "str_replace n old new = n"
    using assms(1) not_contains_char[OF assms(7,8)] by (rule str_replace_absent)
  ultimately have same: "str_replace (pre @ n) old new = pre @ n" by simp
  have "str_replace (a @ (pre @ n) @ b) old new
          = str_replace a old new @ (pre @ n) @ str_replace b old new"
    using assms(1) _ _ _ same
  proof (rule str_replace_inert)
    show "pre @ n \<noteq> []" using assms(2) by simp
    show "hd (pre @ n) \<notin> set (tl old)" using assms(2,4) by simp
    show "last (pre @ n) \<notin> set (butlast old)" using assms(3,5) by simp
  qed
  then show ?thesis by simp
qed

section \<open>Facts about the tokens of the template\<close>

lemma border_free_title_token: "border_free title_token"
  by code_simp

lemma border_free_content_token: "border_free content_token"
  by code_simp

lemma border_free_href_site: "border_free href_site"
  by code_simp

lemma border_free_src_site: "border_free src_site"
  by code_simp

lemma content_in_title_pass:
  "str_replace (a @ content_token @ b) title_token title
     = str_replace a title_token title @ content_token @ str_replace b title_token title"
proof -
  have l: "clear_left title_token content_token" by code_simp
  have r: "clear_right title_token content_token" by code_simp
  have ne: "title_token \<noteq> []" by (simp add: title_token_def)
  have "\<not> contains content_token title_token" by code_simp
  then have "str_replace content_token title_token title = content_token"
    using ne by (rule str_replace_absent[rotated])
  then show ?thesis using str_replace_isolated[OF ne l r, of a b title] by simp
qed

lemma src_site_in_href_pass:
  "str_replace (a @ src_site @ b) href_site new
     = str_replace a href_site new @ src_site @ str_replace b href_site new"
proof -
  have ne: "href_site \<noteq> []" by code_simp
  have l: "clear_left href_site src_site" by code_simp
  have r: "clear_right href_site src_site" by code_simp
  have "\<not> contains src_site href_site" by code_simp
  then have "str_replace src_site href_site new = src_site"
    using ne by (rule str_replace_absent[rotated])
  then show ?thesis using str_replace_isolated[OF ne l r, of a b new] by simp
qed

lemma normalize_basepath_last:
  "normalize_basepath basepath \<noteq> [] \<and> last (normalize_basepath basepath) = CHR ''/''"
proof (cases "endswith basepath ''/''")
  case True
  then obtain x where "basepath = x @ ''/''"
    unfolding endswith_suffix suffix_def by blast
  then show ?thesis by (simp add: normalize_basepath_def)
next
  case False
  then show ?thesis by (simp add: normalize_basepath_def)
qed

lemma normalize_basepath_set:
  "CHR 0x22 \<notin> set basepath \<Longrightarrow> CHR 0x22 \<notin> set (normalize_basepath basepath)"
  by (simp add: normalize_basepath_def)

lemma straddle_src_site_href_open: "straddle_points src_site href_open = []"
  by code_simp

lemma straddle_href_root_href_open: "straddle_points href_root href_open = [6]"
  by code_simp

lemma straddle_src_root_href_open: "straddle_points src_root href_open = []"
  by code_simp

lemma straddle_href_root_src_open: "straddle_points href_root src_open = []"
  by code_simp

lemma straddle_src_root_src_open: "straddle_points src_root src_open = [5]"
  by code_simp

lemma href_root_after_open: "drop 6 href_root = ''/''"
  by code_simp

lemma src_root_after_open: "drop 5 src_root = ''/''"
  by code_simp

lemma href_opened_src_site:
  assumes "n \<noteq> []" "last n = CHR ''/''" "CHR 0x22 \<notin> set n"
  shows "str_replace (a @ href_open @ n @ b) src_site new
           = str_replace a src_site new @ href_open @ n @ str_replace b src_site new"
proof (rule opened_inert)
  show "src_site \<noteq> []" by code_simp
  show "href_open \<noteq> []" by code_simp
  show "n \<noteq> []" by fact
  show "hd href_open \<notin> set (tl src_site)" by code_simp
  have "CHR ''/'' \<notin> set (butlast src_site)" by code_simp
  then show "last n \<notin> set (butlast src_site)" using assms(2) by simp
  show "\<not> contains href_open src_site" by code_simp
  show "CHR 0x22 \<in> set src_site" by code_simp
  show "CHR 0x22 \<notin> set n" by fact
  show "\<forall>k\<in>set (straddle_points src_site href_open). \<not> prefix (drop k src_site) n"
    by (simp add: straddle_src_site_href_open)
qed

lemma href_opened_href_root:
  assumes "n \<noteq> []" "last n = CHR ''/''" "CHR 0x22 \<notin> set n" "\<not> startswith n ''/''"
  shows "str_replace (a @ href_open @ n @ b) href_root new
           = str_replace a href_root new @ href_open @ n @ str_replace b href_root new"
proof (rule opened_inert)
  show "href_root \<noteq> []" by code_simp
  show "href_open \<noteq> []" by code_simp
  show "n \<noteq> []" by fact
  show "hd href_open \<notin> set (tl href_root)" by code_simp
  have "CHR ''/'' \<notin> set (butlast href_root)" by code_simp
  then show "last n \<notin> set (butlast href_root)" using assms(2) by simp
  show "\<not> contains href_open href_root" by code_simp
  show "CHR 0x22 \<in> set href_root" by code_simp
  show "CHR 0x22 \<notin> set n" by fact
  show "\<forall>k\<in>set (straddle_points href_root href_open). \<not> prefix (drop k href_root) n"
    using assms(4) by (simp add: straddle_href_root_href_open href_root_after_open startswith_prefix)
qed

lemma href_opened_src_root:
  assumes "n \<noteq> []" "last n = CHR ''/''" "CHR 0x22 \<notin> set n"
  shows "str_replace (a @ href_open @ n @ b) src_root new
           = str_replace a src_root new @ href_open @ n @ str_replace b src_root new"
proof (rule opened_inert)
  show "src_root \<noteq> []" by code_simp
  show "href_open \<noteq> []" by code_simp
  show "n \<noteq> []" by fact
  show "hd href_open \<notin> set (tl src_root)" by code_simp
  have "CHR ''/'' \<notin> set (butlast src_root)" by code_simp
  then show "last n \<notin> set (butlast src_root)" using assms(2) by simp
  show "\<not> contains href_open src_root" by code_simp
  show "CHR 0x22 \<in> set src_root" by code_simp
  show "CHR 0x22 \<notin> set n" by fact
  show "\<forall>k\<in>set (straddle_points src_root href_open). \<not> prefix (drop k src_root) n"
    by (simp add: straddle_src_root_href_open)
qed

lemma src_opened_href_root:
  assumes "n \<noteq> []" "last n = CHR ''/''" "CHR 0x22 \<notin> set n"
  shows "str_replace (a @ src_open @ n @ b) href_root new
           = str_replace a href_root new @ src_open @ n @ str_replace b href_root new"
proof (rule opened_inert)
  show "href_root \<noteq> []" by code_simp
  show "src_open \<noteq> []" by code_simp
  show "n \<noteq> []" by fact
  show "hd src_open \<notin> set (tl href_root)" by code_simp
  have "CHR ''/'' \<notin> set (butlast href_root)" by code_simp
  then show "last n \<notin> set (butlast href_root)" using assms(2) by simp
  show "\<not> contains src_open href_root" by code_simp
  show "CHR 0x22 \<in> set href_root" by code_simp
  show "CHR 0x22 \<notin> set n" by fact
  show "\<forall>k\<in>set (straddle_points href_root src_open). \<not> prefix (drop k href_root) n"
    by (simp add: straddle_href_root_src_open)
qed

lemma src_opened_src_root:
  assumes "n \<noteq> []" "last n = CHR ''/''" "CHR 0x22 \<notin> set n" "\<not> startswith n ''/''"
  shows "str_replace (a @ src_open @ n @ b) src_root new
           = str_replace a src_root new @ src_open @ n @ str_replace b src_root new"
proof (rule opened_inert)
  show "src_root \<noteq> []" by code_simp
  show "src_open \<noteq> []" by code_simp
  show "n \<noteq> []" by fact
  show "hd src_open \<notin> set (tl src_root)" by code_simp
  have "CHR ''/'' \<notin> set (butlast src_root)" by code_simp
  then show "last n \<notin> set (butlast src_root)" using assms(2) by simp
  show "\<not> contains src_open src_root" by code_simp
  show "CHR 0x22 \<in> set src_root" by code_simp
  show "CHR 0x22 \<notin> set n" by fact
  show "\<forall>k\<in>set (straddle_points src_root src_open). \<not> prefix (drop k src_root) n"
    using assms(4) by (simp add: straddle_src_root_src_open src_root_after_open startswith_prefix)
qed

section \<open>Facts about the URL passes\<close>

lemma fix_urls_passes: "fix_urls html basepath = run_passes html (url_passes basepath)"
  by (simp add: fix_urls_def url_passes_def)

lemma run_passes_isolated:
  assumes "isolated_through ps x"
  shows "run_passes (a @ x @ b) ps = run_passes a ps @ run_passes x ps @ run_passes b ps"
  using assms
proof (induction ps arbitrary: a x b)
  case Nil
  then show ?case by simp
next
  case (Cons p ps)
  then have "str_replace (a @ x @ b) (fst p) (snd p)
      = str_replace a (fst p) (snd p) @ str_replace x (fst p) (snd p) @ str_replace b (fst p) (snd p)"
    by (simp add: str_replace_isolated)
  then show ?case using Cons by simp
qed

lemma fix_urls_isolated:
  assumes "isolated_through (url_passes basepath) x"
  shows "fix_urls (a @ x @ b) basepath
           = fix_urls a basepath @ fix_urls x basepath @ fix_urls b basepath"
  using run_passes_isolated[OF assms] by (simp add: fix_urls_passes)

lemma fix_urls_root:
  "fix_urls html ''/'' = str_replace (str_replace html href_site href_root) src_site src_root"
proof -
  have r: "rstrip_slash ''/'' = []" by (simp add: rstrip_slash_def)
  have "href_root \<noteq> []" "src_root \<noteq> []" by code_simp+
  then show ?thesis
    by (simp add: fix_urls_def r href_root_def src_root_def str_replace_same)
qed

lemma about_link_isolated: "isolated_through (url_passes ''myrepo/'') (href_root @ ''about'' @ dq)"
  by code_simp

lemma style_link_isolated: "isolated_through (url_passes ''myrepo/'') (href_site @ ''/style.css'' @ dq)"
  by code_simp

lemma fix_urls_about_link: "fix_urls (href_root @ ''about'' @ dq) ''myrepo/'' = href_open @ ''myrepo/about'' @ dq"
  by code_simp

lemma fix_urls_style_link:
  "fix_urls (href_site @ ''/style.css'' @ dq) ''myrepo/'' = href_open @ ''myrepo//style.css'' @ dq"
  by code_simp

lemma about_link_isolated_root: "isolated_through (url_passes ''/'') (href_root @ ''about'' @ dq)"
  by code_simp

lemma fix_urls_about_link_root: "fix_urls (href_root @ ''about'' @ dq) ''/'' = href_root @ ''about'' @ dq"
  by code_simp

text \<open>
  Where the later passes leave alone what the marker passes wrote: with a
  normalized base path that does not start with a slash (and a base path
  without a double quote), and with the default base path \<^verbatim>\<open>/\<close>, where the
  pass for \<^verbatim>\<open>href="/\<close> replaces each match by itself.
\<close>

lemma marker_rewritten_once:
  assumes "\<not> startswith (normalize_basepath basepath) ''/''"
    and "CHR 0x22 \<notin> set basepath"
  shows "fix_urls (a @ href_site @ b) (normalize_basepath basepath)
           = fix_urls a (normalize_basepath basepath)
             @ href_open @ normalize_basepath basepath
             @ fix_urls b (normalize_basepath basepath)
       \<and> fix_urls (a @ src_site @ b) (normalize_basepath basepath)
           = fix_urls a (normalize_basepath basepath)
             @ src_open @ normalize_basepath basepath
             @ fix_urls b (normalize_basepath basepath)"
proof -
  let ?n = "normalize_basepath basepath"
  have n: "?n \<noteq> []" "last ?n = CHR ''/''"
    using normalize_basepath_last by simp_all
  have q: "CHR 0x22 \<notin> set ?n"
    using assms(2) by (rule normalize_basepath_set)
  have neh: "href_site \<noteq> []" and nes: "src_site \<noteq> []" by code_simp+
  note h2 = href_opened_src_site[OF n q]
  note h3 = href_opened_href_root[OF n q assms(1)]
  note h4 = href_opened_src_root[OF n q]
  note s3 = src_opened_href_root[OF n q]
  note s4 = src_opened_src_root[OF n q assms(1)]
  have "str_replace (a @ href_site @ b) href_site (href_open @ ?n)
          = str_replace a href_site (href_open @ ?n) @ href_open @ ?n
            @ str_replace b href_site (href_open @ ?n)"
    using str_replace_occurrence[OF neh border_free_href_site] by simp
  then have 1: "fix_urls (a @ href_site @ b) ?n
           = fix_urls a ?n @ href_open @ ?n @ fix_urls b ?n"
    unfolding fix_urls_def Let_def by (simp only: h2 h3 h4)
  have "str_replace (str_replace (a @ src_site @ b) href_site (href_open @ ?n)) src_site (src_open @ ?n)
          = str_replace (str_replace a href_site (href_open @ ?n)) src_site (src_open @ ?n)
            @ src_open @ ?n
            @ str_replace (str_replace b href_site (href_open @ ?n)) src_site (src_open @ ?n)"
    using str_replace_occurrence[OF nes border_free_src_site] by (simp add: src_site_in_href_pass)
  then have 2: "fix_urls (a @ src_site @ b) ?n
           = fix_urls a ?n @ src_open @ ?n @ fix_urls b ?n"
    unfolding fix_urls_def Let_def by (simp only: s3 s4)
  from 1 2 show ?thesis by blast
qed

lemma marker_rewritten_once_root:
  "fix_urls (a @ href_site @ b) ''/'' = fix_urls a ''/'' @ href_root @ fix_urls b ''/''"
proof -
  have neh: "href_site \<noteq> []" and nes: "src_site \<noteq> []"
    by code_simp+
  have l: "clear_left src_site href_root"
    by code_simp
  have r: "clear_right src_site href_root"
    by code_simp
  have "\<not> contains href_root src_site"
    by code_simp
  then have same: "str_replace href_root src_site src_root = href_root"
    using nes by (rule str_replace_absent[rotated])
  have "str_replace (a @ href_site @ b) href_site href_root
          = str_replace a href_site href_root @ href_root @ str_replace b href_site href_root"
    using neh border_free_href_site by (rule str_replace_occurrence)
  then show ?thesis
    unfolding fix_urls_root
    using str_replace_isolated[OF nes l r, of "str_replace a href_site href_root"
        "str_replace b href_site href_root" src_root]
    by (simp add: same)
qed

section \<open>Facts about lines and titles\<close>

lemma split_nl_nonempty: "split_nl s \<noteq> []"
  by (induction s) (auto split: list.splits)

lemma split_nl_no_newline: "l \<in> set (split_nl s) \<Longrightarrow> newline \<notin> set l"
proof (induction s arbitrary: l)
  case Nil
  then show ?case by simp
next
  case (Cons c cs)
  show ?case
  proof (cases "c = newline")
    case True
    then show ?thesis using Cons by auto
  next
    case False
    obtain m ms where ms: "split_nl cs = m # ms"
      using split_nl_nonempty by (cases "split_nl cs") auto
    then have "l = c # m \<or> l \<in> set ms" using Cons.prems False by simp
    moreover have "newline \<notin> set m" using Cons.IH ms by simp
    moreover have "l \<in> set ms \<Longrightarrow> newline \<notin> set l" using Cons.IH ms by simp
    ultimately show ?thesis using False by auto
  qed
qed

lemma split_nl_line: "newline \<notin> set l \<Longrightarrow> split_nl l = [l]"
  by (induction l) auto

lemma split_nl_line_append:
  "newline \<notin> set l \<Longrightarrow> split_nl (l @ newline # rest) = l # split_nl rest"
  by (induction l) auto

lemma split_nl_join:
  assumes "ls \<noteq> []" "\<forall>l\<in>set ls. newline \<notin> set l"
  shows "split_nl (join_nl ls) = ls"
  using assms
proof (induction ls rule: join_nl.induct)
  case 1
  then show ?case by simp
next
  case (2 l)
  then show ?case by (simp add: split_nl_line)
next
  case (3 l m ls)
  then show ?case by (simp add: split_nl_line_append)
qed

lemma join_split_nl: "join_nl (split_nl s) = s"
proof (induction s)
  case Nil
  then show ?case by simp
next
  case (Cons c cs)
  obtain m ms where ms: "split_nl cs = m # ms"
    using split_nl_nonempty by (cases "split_nl cs") auto
  show ?case
  proof (cases "c = newline")
    case True
    then show ?thesis using Cons ms by simp
  next
    case False
    then show ?thesis using Cons ms by (cases ms) auto
  qed
qed

lemma first_title_skip:
  assumes "\<forall>l\<in>set pre. \<not> startswith l ''# ''"
  shows "first_title (pre @ rest) = first_title rest"
  using assms by (induction pre) auto

lemma first_title_error:
  "(first_title ls = Inl e) =
     (e = ValueError ''No title found in markdown'' \<and> (\<forall>l\<in>set ls. \<not> startswith l ''# ''))"
  by (induction ls) auto

lemma startswith_append: "startswith (p @ s) p"
  by (simp add: startswith_def)

section \<open>Facts about the file system\<close>

lemma is_file_at_iff: "is_file_at fs p = (\<exists>c. lookup fs p = Some (File c))"
  by (auto simp: is_file_at_def split: option.splits node.splits)

lemma map_of_append_new:
  "map_of es x = None \<Longrightarrow> map_of (es @ [(x, n)]) y = (if y = x then Some n else map_of es y)"
  by (induction es) auto

lemma map_of_update:
  "map_of (AList.update x n es) y = (if y = x then Some n else map_of es y)"
  by (simp add: update_conv')

lemma write_file_lookup:
  "write_file fs p c = Inr fs' \<Longrightarrow> lookup fs' p = Some (File c)"
proof (induction fs p c arbitrary: fs' rule: write_file.induct)
  case (4 es x p c)
  show ?case
  proof (cases "map_of es x")
    case None
    with "4.prems" have "p = []" "fs' = Dir (es @ [(x, File c)])"
      by (auto split: if_splits)
    then show ?thesis using None by (simp add: map_of_append_new del: map_of_append)
  next
    case (Some n)
    with "4.prems" obtain n' where n': "write_file n p c = Inr n'" "fs' = Dir (AList.update x n' es)"
      by (auto split: sum.splits)
    then have "lookup n' p = Some (File c)" using "4.IH"[OF Some] by simp
    then show ?thesis using n' by (simp add: map_of_update)
  qed
qed auto

lemma write_file_files:
  "write_file fs p c = Inr fs' \<Longrightarrow> is_file_at fs' q = (q = p \<or> is_file_at fs q)"
proof (induction fs p c arbitrary: fs' q rule: write_file.induct)
  case (1 old c)
  then show ?case by (cases q) (auto simp: is_file_at_iff)
next
  case (2 es c)
  then show ?case by simp
next
  case (3 old x p c)
  then show ?case by simp
next
  case (4 es x p c)
  show ?case
  proof (cases "map_of es x")
    case None
    with "4.prems" have p: "p = []" and fs': "fs' = Dir (es @ [(x, File c)])"
      by (auto split: if_splits)
    show ?thesis
    proof (cases q)
      case Nil
      then show ?thesis using fs' by (simp add: is_file_at_iff)
    next
      case (Cons y q')
      then show ?thesis using fs' p None
        by (cases q')
          (auto simp: is_file_at_iff map_of_append_new simp del: map_of_append
             split: option.splits if_splits)
    qed
  next
    case (Some n)
    with "4.prems" obtain n' where n': "write_file n p c = Inr n'" "fs' = Dir (AList.update x n' es)"
      by (auto split: sum.splits)
    have ih: "is_file_at n' r = (r = p \<or> is_file_at n r)" for r
      using "4.IH"[OF Some n'(1)] .
    show ?thesis
    proof (cases q)
      case Nil
      then show ?thesis using n' by (simp add: is_file_at_iff)
    next
      case (Cons y q')
      show ?thesis
      proof (cases "y = x")
        case True
        have "is_file_at fs' q = is_file_at n' q'"
          using n' Cons True by (simp add: is_file_at_iff map_of_update)
        moreover have "is_file_at (Dir es) q = is_file_at n q'"
          using Some Cons True by (simp add: is_file_at_iff)
        ultimately show ?thesis using ih Cons True by simp
      next
        case False
        then show ?thesis using n' Cons
          by (simp add: is_file_at_iff map_of_update)
      qed
    qed
  qed
qed

lemma makedirs_files:
  "makedirs fs p = Inr fs' \<Longrightarrow> is_file_at fs' q = is_file_at fs q"
proof (induction fs p arbitrary: fs' q rule: makedirs.induct)
  case (1 c p)
  then show ?case by simp
next
  case (2 es)
  then show ?case by simp
next
  case (3 es x p)
  let ?n = "case map_of es x of None \<Rightarrow> Dir [] | Some n \<Rightarrow> n"
  from "3.prems" obtain n' where n': "makedirs ?n p = Inr n'" "fs' = Dir (AList.update x n' es)"
    by (auto split: sum.splits)
  have ih: "is_file_at n' r = is_file_at ?n r" for r
    using "3.IH"[OF n'(1)] .
  show ?case
  proof (cases q)
    case Nil
    then show ?thesis using n' by (simp add: is_file_at_iff)
  next
    case (Cons y q')
    show ?thesis
    proof (cases "y = x")
      case True
      have "is_file_at fs' q = is_file_at n' q'"
        using n' Cons True by (simp add: is_file_at_iff map_of_update)
      moreover have "is_file_at (Dir es) q = is_file_at ?n q'"
        using Cons True by (cases q') (auto simp: is_file_at_iff split: option.splits)
      ultimately show ?thesis using ih by simp
    next
      case False
      then show ?thesis using n' Cons by (simp add: is_file_at_iff map_of_update)
    qed
  qed
qed

lemma walk_reaches:
  "lookup n rel = Some (Dir es) \<Longrightarrow>
     (root @ rel, map fst (filter (\<lambda>e. is_file (snd e)) es)) \<in> set (walk root n)"
  and "map_of ds x = Some m \<Longrightarrow> lookup m rel = Some (Dir es) \<Longrightarrow>
     (root @ x # rel, map fst (filter (\<lambda>e. is_file (snd e)) es)) \<in> set (walk_entries root ds)"
proof (induction root n and root ds arbitrary: rel es and rel es x m rule: walk_walk_entries.induct)
  case (1 root c)
  then show ?case by (cases rel) auto
next
  case (2 root ds)
  show ?case
  proof (cases rel)
    case Nil
    then show ?thesis using "2.prems" by simp
  next
    case (Cons x rel')
    with "2.prems" obtain m where m: "map_of ds x = Some m" "lookup m rel' = Some (Dir es)"
      by (auto split: option.splits)
    from "2.IH"[OF m] show ?thesis using Cons by simp
  qed
next
  case (3 root)
  then show ?case by simp
next
  case (4 root e ds)
  show ?case
  proof (cases "fst e = x")
    case True
    then have "snd e = m" using "4.prems"(1) by (cases e) auto
    then have "((root @ [fst e]) @ rel, map fst (filter (\<lambda>e. is_file (snd e)) es))
                 \<in> set (walk (root @ [fst e]) (snd e))"
      using "4.IH"(1) "4.prems"(2) by blast
    then show ?thesis using True by simp
  next
    case False
    then have "map_of ds x = Some m" using "4.prems"(1) by (cases e) auto
    from "4.IH"(2)[OF this "4.prems"(2)] show ?thesis by simp
  qed
qed

lemma file_entry_listed:
  assumes "is_file_at n (rel @ [file])"
  shows "\<exists>files. (root @ rel, files) \<in> set (walk root n) \<and> file \<in> set files"
proof -
  from assms obtain c where c: "lookup n (rel @ [file]) = Some (File c)"
    by (auto simp: is_file_at_iff)
  have "\<exists>es. lookup n rel = Some (Dir es) \<and> map_of es file = Some (File c)"
    using c
  proof (induction n rel rule: lookup.induct)
    case (1 n)
    then show ?case by (cases n) (auto split: option.splits)
  next
    case (2 c x p)
    then show ?case by simp
  next
    case (3 es x p)
    then show ?case by (auto split: option.splits)
  qed
  then obtain es where es: "lookup n rel = Some (Dir es)" "map_of es file = Some (File c)"
    by blast
  then have "(file, File c) \<in> set es" by (simp add: map_of_SomeD)
  then have "file \<in> set (map fst (filter (\<lambda>e. is_file (snd e)) es))" by force
  with walk_reaches(1)[OF es(1)] show ?thesis by blast
qed

section \<open>Facts about page generation\<close>

text \<open>
  When both files can be read, the title is found and the renderer succeeds,
  \<open>generate_page\<close> writes the rewritten, substituted template to the output
  path and does nothing else.
\<close>

lemma generate_page_success:
  assumes "read_file fs input_path = Inr markdown"
    and "extract_title markdown = Inr title"
    and "render markdown = Inr html_content"
    and "read_file fs template_path = Inr template"
  shows "generate_page render fs input_path template_path output_path basepath =
           (case write_file fs output_path
                   (fix_urls (substitute template title html_content)
                      (normalize_basepath basepath)) of
              Inl e \<Rightarrow> (Inl e, fs)
            | Inr fs' \<Rightarrow> (Inr (), fs'))"
  using assms by (simp add: generate_page_def page_html_def)

text \<open>
  A file name whose only \<^verbatim>\<open>.md\<close> is the extension gets the extension replaced.
\<close>

lemma output_filename_plain:
  assumes "\<not> contains stem ''.md''"
  shows "output_filename (stem @ ''.md'') = stem @ ''.html''"
proof -
  have ne: "''.md'' \<noteq> []" by simp
  have bf: "border_free ''.md''" by code_simp
  have "str_replace (stem @ ''.md'' @ []) ''.md'' ''.html''
          = str_replace stem ''.md'' ''.html'' @ ''.html'' @ str_replace [] ''.md'' ''.html''"
    using ne bf by (rule str_replace_occurrence)
  moreover have "str_replace stem ''.md'' ''.html'' = stem"
    using ne assms by (rule str_replace_absent)
  ultimately show ?thesis by (simp add: output_filename_def)
qed

text \<open>
  A successful run changes the files of the tree in one way only: it adds (or
  overwrites) the output paths computed for the \<^verbatim>\<open>.md\<close> files of the walk.
  In particular every \<^verbatim>\<open>.md\<close> file below the content directory has its page
  in the mirrored directory, under the name \<open>output_filename\<close> gives it.
\<close>

lemma generate_page_files:
  assumes "generate_page render fs input_path template_path output_path basepath = (Inr u, fs')"
  shows "is_file_at fs' q = (q = output_path \<or> is_file_at fs q)"
proof -
  from assms obtain html where "write_file fs output_path html = Inr fs'"
    unfolding generate_page_def by (auto split: sum.splits)
  then show ?thesis by (rule write_file_files)
qed

lemma generate_files_files:
  assumes "generate_files render content_dir template_path output_dir basepath root files fs
             = (Inr u, fs')"
  shows "is_file_at fs' q
           = (is_file_at fs q \<or> q \<in> set (output_paths content_dir output_dir root files))"
  using assms
proof (induction files arbitrary: fs)
  case Nil
  then show ?case by (simp add: output_paths_def)
next
  case (Cons fl fls)
  show ?case
  proof (cases "endswith fl ''.md''")
    case False
    then have "generate_files render content_dir template_path output_dir basepath root fls fs
                 = (Inr u, fs')"
      using Cons.prems by simp
    from Cons.IH[OF this] show ?thesis using False by (simp add: output_paths_def)
  next
    case True
    let ?sub = "output_dir @ drop (length content_dir) root"
    let ?out = "?sub @ [output_filename fl]"
    from Cons.prems True obtain fs1 where fs1: "makedirs fs ?sub = Inr fs1"
      by (auto simp: Let_def split: sum.splits)
    from Cons.prems True fs1 obtain v fs2 where
      fs2: "generate_page render fs1 (root @ [fl]) template_path ?out basepath = (Inr v, fs2)"
      and rest: "generate_files render content_dir template_path output_dir basepath root fls fs2
                   = (Inr u, fs')"
      by (auto simp: Let_def split: sum.splits prod.splits)
    have "is_file_at fs2 q = (q = ?out \<or> is_file_at fs q)"
      using generate_page_files[OF fs2] makedirs_files[OF fs1] by simp
    then show ?thesis using Cons.IH[OF rest] True by (auto simp: output_paths_def)
  qed
qed

lemma generate_dirs_files:
  assumes "generate_dirs render content_dir template_path output_dir basepath listing fs
             = (Inr u, fs')"
  shows "is_file_at fs' q
           = (is_file_at fs q \<or> q \<in> set (all_output_paths content_dir output_dir listing))"
  using assms
proof (induction listing arbitrary: fs)
  case Nil
  then show ?case by (simp add: all_output_paths_def)
next
  case (Cons d listing)
  obtain root files where d: "d = (root, files)" by (cases d)
  from Cons.prems d obtain v fs1 where
    fs1: "generate_files render content_dir template_path output_dir basepath root files fs
            = (Inr v, fs1)"
    and rest: "generate_dirs render content_dir template_path output_dir basepath listing fs1
                 = (Inr u, fs')"
    by (auto split: sum.splits prod.splits)
  show ?case
    using generate_files_files[OF fs1] Cons.IH[OF rest] d
    by (auto simp: all_output_paths_def)
qed

lemma generated_files_exact:
  assumes run: "generate_pages_recursive render fs content_dir template_path output_dir basepath
             = (Inr u, fs')"
  shows "is_file_at fs' q
           = (is_file_at fs q
              \<or> q \<in> set (all_output_paths content_dir output_dir
                            (case lookup fs content_dir of None \<Rightarrow> []
                             | Some n \<Rightarrow> walk content_dir n)))"
  using generate_dirs_files[OF run[unfolded generate_pages_recursive_def]] .

lemma generated_file_for_md:
  assumes run: "generate_pages_recursive render fs content_dir template_path output_dir basepath
             = (Inr u, fs')"
    and "is_file_at fs (content_dir @ rel @ [file])" "endswith file ''.md''"
  shows "is_file_at fs' (output_dir @ rel @ [output_filename file])"
proof -
  have "\<exists>n. lookup fs content_dir = Some n \<and> is_file_at n (rel @ [file])"
    using assms(2)
  proof (induction fs content_dir rule: lookup.induct)
    case (1 n)
    then show ?case by simp
  next
    case (2 c x p)
    then show ?case by (simp add: is_file_at_iff)
  next
    case (3 es x p)
    then show ?case by (auto simp: is_file_at_iff split: option.splits)
  qed
  then obtain n where n: "lookup fs content_dir = Some n" "is_file_at n (rel @ [file])" by blast
  from file_entry_listed[OF n(2)] obtain files where
    f: "(content_dir @ rel, files) \<in> set (walk content_dir n)" "file \<in> set files" by blast
  have "output_dir @ rel @ [output_filename file]
          \<in> set (output_paths content_dir output_dir (content_dir @ rel) files)"
    using f(2) assms(3) by (auto simp: output_paths_def)
  then have "output_dir @ rel @ [output_filename file]
          \<in> set (all_output_paths content_dir output_dir (walk content_dir n))"
    using f(1) by (force simp: all_output_paths_def)
  then show ?thesis using generated_files_exact[OF run] n(1) by simp
qed

section \<open>Base path \<^verbatim>\<open>myrepo\<close>\<close>

text \<open>
  Claim C1, as amended. The base path \<^verbatim>\<open>myrepo\<close> is normalized to \<^verbatim>\<open>myrepo/\<close>.
  Wherever \<^verbatim>\<open>href="/about"\<close> stands in the substituted template, the output
  has \<^verbatim>\<open>href="myrepo/about"\<close> there, and the text before and after is
  rewritten on its own. Wherever \<^verbatim>\<open>href="HTMLStaticSite/style.css"\<close> stands, the
  output has \<^verbatim>\<open>href="myrepo//style.css"\<close>: the marker is replaced by the
  normalized base path, whose slash comes before the slash that followed the
  marker.
\<close>

theorem fix_urls_myrepo:
  "normalize_basepath ''myrepo'' = ''myrepo/''
   \<and> page_html template title html_content ''myrepo''
       = fix_urls (substitute template title html_content) ''myrepo/''
   \<and> fix_urls (a @ (href_root @ ''about'' @ dq) @ b) ''myrepo/''
       = fix_urls a ''myrepo/'' @ (href_open @ ''myrepo/about'' @ dq) @ fix_urls b ''myrepo/''
   \<and> fix_urls (a @ (href_site @ ''/style.css'' @ dq) @ b) ''myrepo/''
       = fix_urls a ''myrepo/'' @ (href_open @ ''myrepo//style.css'' @ dq) @ fix_urls b ''myrepo/''"
proof (intro conjI)
  show n: "normalize_basepath ''myrepo'' = ''myrepo/''"
    by (simp add: normalize_basepath_def endswith_def)
  show "page_html template title html_content ''myrepo''
       = fix_urls (substitute template title html_content) ''myrepo/''"
    unfolding page_html_def by (simp only: n)
  show "fix_urls (a @ (href_root @ ''about'' @ dq) @ b) ''myrepo/''
       = fix_urls a ''myrepo/'' @ (href_open @ ''myrepo/about'' @ dq) @ fix_urls b ''myrepo/''"
    using fix_urls_isolated[OF about_link_isolated] by (simp only: fix_urls_about_link)
  show "fix_urls (a @ (href_site @ ''/style.css'' @ dq) @ b) ''myrepo/''
       = fix_urls a ''myrepo/'' @ (href_open @ ''myrepo//style.css'' @ dq) @ fix_urls b ''myrepo/''"
    using fix_urls_isolated[OF style_link_isolated] by (simp only: fix_urls_style_link)
qed

text \<open>
  The claim as written asks for \<^verbatim>\<open>href="myrepo/style.css"\<close>, with one slash.
\<close>

theorem fix_urls_myrepo_counterexample:
  "fix_urls (href_site @ ''/style.css'' @ dq) (normalize_basepath ''myrepo'')
     \<noteq> href_open @ ''myrepo/style.css'' @ dq"
  by code_simp

section \<open>The marker under a base path that starts with a slash\<close>

text \<open>
  Claim C2. The claim asks that the \<^verbatim>\<open>href="/\<close> and \<^verbatim>\<open>src="/\<close> text written
  by the marker passes of lines 31-32 is not rewritten again by lines 33-34.
  The code does rewrite it. With the base path \<^verbatim>\<open>/HTMLStaticSite/\<close> of the
  GitHub Pages deployment that line 30 names, line 31 turns
  \<^verbatim>\<open>href="HTMLStaticSite/index.css"\<close> into \<^verbatim>\<open>href="/HTMLStaticSite//index.css"\<close>,
  and line 33 then prefixes the base path a second time: the page has
  \<^verbatim>\<open>href="/HTMLStaticSite/HTMLStaticSite//index.css"\<close>. The root link
  \<^verbatim>\<open>href="/index.css"\<close> of the same template gets the base path once. The
  same happens to \<^verbatim>\<open>src="HTMLStaticSite\<close> under the base path \<^verbatim>\<open>/repo\<close>.
\<close>

theorem marker_rewritten_twice:
  "normalize_basepath ''/HTMLStaticSite/'' = ''/HTMLStaticSite/''
   \<and> str_replace (href_site @ ''/index.css'' @ dq) href_site (href_open @ ''/HTMLStaticSite/'')
       = href_open @ ''/HTMLStaticSite//index.css'' @ dq
   \<and> page_html (href_site @ ''/index.css'' @ dq) ''T'' ''B'' ''/HTMLStaticSite/''
       = href_open @ ''/HTMLStaticSite/HTMLStaticSite//index.css'' @ dq
   \<and> page_html (href_root @ ''index.css'' @ dq) ''T'' ''B'' ''/HTMLStaticSite/''
       = href_open @ ''/HTMLStaticSite/index.css'' @ dq
   \<and> page_html (src_site @ ''/logo.png'' @ dq) ''T'' ''B'' ''/repo''
       = src_open @ ''/repo/repo//logo.png'' @ dq"
  by code_simp

section \<open>Title extraction: the first heading line\<close>

text \<open>
  Claim C3. A document is its lines joined by newlines. When some line is
  \<open>''# '' @ s\<close> and no earlier line starts with \<open>''# ''\<close>, \<open>extract_title\<close> returns
  \<open>s\<close> itself: everything after the two characters, nothing trimmed. Later
  lines, heading or not, do not matter.
\<close>

theorem extract_title_first_heading:
  assumes "\<forall>l\<in>set (pre @ [''# '' @ s] @ post). newline \<notin> set l"
    and "\<forall>l\<in>set pre. \<not> startswith l ''# ''"
  shows "extract_title (join_nl (pre @ [''# '' @ s] @ post)) = Inr s"
proof -
  have "split_nl (join_nl (pre @ [''# '' @ s] @ post)) = pre @ [''# '' @ s] @ post"
    using assms(1) by (intro split_nl_join) simp_all
  then have "extract_title (join_nl (pre @ [''# '' @ s] @ post))
               = first_title ((''# '' @ s) # post)"
    using first_title_skip[OF assms(2)] by (simp add: extract_title_def)
  also have "\<dots> = Inr s"
    using startswith_append[of "''# ''" s] by simp
  finally show ?thesis .
qed

theorem extract_title_first_heading_witness:
  "list_all (\<lambda>l. newline \<notin> set l) ([''intro''] @ [''# '' @ ''Welcome  ''] @ [''# Second''])
   \<and> list_all (\<lambda>l. \<not> startswith l ''# '') [''intro'']
   \<and> extract_title (join_nl ([''intro''] @ [''# '' @ ''Welcome  ''] @ [''# Second'']))
       = Inr ''Welcome  ''"
proof -
  have h1: "\<forall>l\<in>set ([''intro''] @ [''# '' @ ''Welcome  ''] @ [''# Second'']). newline \<notin> set l"
    by (simp add: newline_def)
  have h2: "\<forall>l\<in>set [''intro'']. \<not> startswith l ''# ''"
    by (simp add: startswith_def)
  show ?thesis
    using h1 h2 extract_title_first_heading[OF h1 h2] unfolding list_all_iff by blast
qed

section \<open>Title extraction: the missing title\<close>

text \<open>
  Claim C4. \<open>extract_title\<close> fails exactly when no line of the document starts
  with \<open>''# ''\<close>. The only error it raises is the \<open>ValueError\<close> of the source, and
  \<open>generate_page\<close> returns that same error with the file system as it was: the
  page is written only after the title has been found.
\<close>

theorem extract_title_missing:
  "((\<exists>e. extract_title d = Inl e) = (\<forall>l\<in>set (split_nl d). \<not> startswith l ''# ''))
   \<and> (\<forall>e. read_file fs input_path = Inr d \<and> extract_title d = Inl e \<longrightarrow>
          e = ValueError ''No title found in markdown''
          \<and> generate_page render fs input_path template_path output_path basepath = (Inl e, fs))"
proof (intro conjI allI impI)
  show "(\<exists>e. extract_title d = Inl e) = (\<forall>l\<in>set (split_nl d). \<not> startswith l ''# '')"
    by (simp add: extract_title_def first_title_error)
next
  fix e
  assume h: "read_file fs input_path = Inr d \<and> extract_title d = Inl e"
  then show "e = ValueError ''No title found in markdown''"
    by (simp add: extract_title_def first_title_error)
next
  fix e
  assume h: "read_file fs input_path = Inr d \<and> extract_title d = Inl e"
  then show "generate_page render fs input_path template_path output_path basepath = (Inl e, fs)"
    by (simp add: generate_page_def)
qed

theorem extract_title_missing_witness:
  "list_all (\<lambda>l. \<not> startswith l ''# '') (split_nl ''intro'')
   \<and> read_file (Dir [(''a.md'', File ''intro'')]) [''a.md''] = Inr ''intro''
   \<and> extract_title ''intro'' = Inl (ValueError ''No title found in markdown'')
   \<and> generate_page (\<lambda>md. Inr md) (Dir [(''a.md'', File ''intro'')]) [''a.md''] [''t.html'']
         [''a.html''] ''/''
       = (Inl (ValueError ''No title found in markdown''), Dir [(''a.md'', File ''intro'')])"
proof -
  have h1: "\<forall>l\<in>set (split_nl ''intro''). \<not> startswith l ''# ''"
    by (simp add: newline_def startswith_def)
  have h2: "read_file (Dir [(''a.md'', File ''intro'')]) [''a.md''] = Inr ''intro''"
    by (simp add: read_file_def)
  show ?thesis
    using h1 h2
      extract_title_missing[of "''intro''" "Dir [(''a.md'', File ''intro'')]" "[''a.md'']"
        "\<lambda>md. Inr md" "[''t.html'']" "[''a.html'']" "''/''"]
    unfolding list_all_iff by blast
qed

section \<open>The output file name\<close>

text \<open>
  Claim C5. Line 50 replaces every \<^verbatim>\<open>.md\<close> of the file name, not only the
  extension: \<^verbatim>\<open>design.md.md\<close> passes the \<^verbatim>\<open>endswith(".md")\<close> test of line 44
  and becomes \<^verbatim>\<open>design.html.html\<close>, where replacing the trailing extension
  gives \<^verbatim>\<open>design.md.html\<close>.
\<close>

theorem output_filename_inner_md:
  "endswith ''design.md.md'' ''.md''
   \<and> output_filename ''design.md.md'' = ''design.html.html''"
  by (simp add: output_filename_def startswith_def endswith_def)

section \<open>Mirroring the content tree\<close>

text \<open>
  Claim C6. The mirroring itself is as claimed (\<open>generated_files_exact\<close> and
  \<open>generated_file_for_md\<close> above: one page for each \<^verbatim>\<open>.md\<close> file, in the
  mirrored directory, and no other file), but the page is named by
  \<open>output_filename\<close>. On a content directory that holds the one file
  \<^verbatim>\<open>design.md.md\<close>, the run succeeds and creates \<^verbatim>\<open>public/design.html.html\<close>;
  nothing exists at the mirrored path \<^verbatim>\<open>public/design.md.html\<close>.
\<close>

theorem generate_pages_recursive_inner_md:
  "generate_pages_recursive (\<lambda>md. Inr md) example_site
       [''content''] [''template.html''] [''public''] ''/''
     = (Inr (),
        Dir [(''content'', Dir [(''design.md.md'', File ''# T'')]),
             (''template.html'', File ''{{ Title }}''),
             (''public'', Dir [(''design.html.html'', File ''T'')])])
   \<and> lookup (snd (generate_pages_recursive (\<lambda>md. Inr md) example_site
                 [''content''] [''template.html''] [''public''] ''/''))
         [''public'', ''design.md.html''] = None"
  by code_simp

section \<open>Substitution of title and content\<close>

text \<open>
  Claim C7. Both substitutions are plain substring replacements over all
  occurrences. At any occurrence of \<^verbatim>\<open>{{ Title }}\<close> in the template the title
  pass puts the title, the parts before and after being treated alike, and the
  content pass then runs over the result. At any occurrence of
  \<^verbatim>\<open>{{ Content }}\<close> in the template the output has the rendered body, the
  parts before and after being substituted on their own. A template without
  \<^verbatim>\<open>{{ Title }}\<close> only has its content substituted, and a template with
  neither token is left as it is.
\<close>

theorem substitute_every_occurrence:
  "substitute (a @ title_token @ b) title html_content
     = str_replace (str_replace a title_token title @ title @ str_replace b title_token title)
         content_token html_content
   \<and> substitute (a @ content_token @ b) title html_content
       = substitute a title html_content @ html_content @ substitute b title html_content
   \<and> (\<not> contains template title_token \<longrightarrow>
        substitute template title html_content = str_replace template content_token html_content)
   \<and> (\<not> contains template title_token \<and> \<not> contains template content_token \<longrightarrow>
        substitute template title html_content = template)"
proof (intro conjI impI)
  have ne: "title_token \<noteq> []" by (simp add: title_token_def)
  have nec: "content_token \<noteq> []" by (simp add: content_token_def)
  show "substitute (a @ title_token @ b) title html_content
     = str_replace (str_replace a title_token title @ title @ str_replace b title_token title)
         content_token html_content"
    by (simp add: substitute_def str_replace_occurrence[OF ne border_free_title_token])
  show "substitute (a @ content_token @ b) title html_content
       = substitute a title html_content @ html_content @ substitute b title html_content"
    by (simp add: substitute_def content_in_title_pass str_replace_occurrence[OF nec border_free_content_token])
  show "substitute template title html_content = str_replace template content_token html_content"
    if "\<not> contains template title_token"
    using that by (simp add: substitute_def str_replace_absent[OF ne])
  show "substitute template title html_content = template"
    if "\<not> contains template title_token \<and> \<not> contains template content_token"
    using that by (simp add: substitute_def str_replace_absent[OF ne] str_replace_absent[OF nec])
qed

theorem substitute_every_occurrence_witness:
  "\<not> contains ''<p>static</p>'' title_token \<and> \<not> contains ''<p>static</p>'' content_token
   \<and> substitute ''<p>static</p>'' ''T'' ''B'' = ''<p>static</p>''
   \<and> substitute (''<h1>'' @ title_token @ ''</h1>'' @ title_token) ''T'' ''B'' = ''<h1>T</h1>T''"
proof -
  have h: "\<not> contains ''<p>static</p>'' title_token \<and> \<not> contains ''<p>static</p>'' content_token"
    by code_simp
  have "substitute (''<h1>'' @ title_token @ ''</h1>'' @ title_token) ''T'' ''B'' = ''<h1>T</h1>T''"
    by code_simp
  then show ?thesis
    using h substitute_every_occurrence[of "[]" "[]" "''T''" "''B''" "''<p>static</p>''"] by blast
qed

section \<open>The default base path\<close>

text \<open>
  Claim C8, as amended. With the base path \<^verbatim>\<open>/\<close> (which normalization
  leaves as it is) the rewriting is the identity on every text that holds
  neither \<^verbatim>\<open>href="HTMLStaticSite\<close> nor \<^verbatim>\<open>src="HTMLStaticSite\<close>, and wherever
  \<^verbatim>\<open>href="/about"\<close> stands in the text, \<^verbatim>\<open>href="/about"\<close> stands in the output.
\<close>

theorem fix_urls_default_basepath:
  "normalize_basepath ''/'' = ''/''
   \<and> page_html template title html_content ''/''
       = fix_urls (substitute template title html_content) ''/''
   \<and> (\<not> contains html href_site \<and> \<not> contains html src_site \<longrightarrow> fix_urls html ''/'' = html)
   \<and> fix_urls (a @ (href_root @ ''about'' @ dq) @ b) ''/''
       = fix_urls a ''/'' @ (href_root @ ''about'' @ dq) @ fix_urls b ''/''"
proof (intro conjI impI)
  show n: "normalize_basepath ''/'' = ''/''"
    by (simp add: normalize_basepath_def endswith_def)
  show "page_html template title html_content ''/''
       = fix_urls (substitute template title html_content) ''/''"
    unfolding page_html_def by (simp only: n)
  have neh: "href_site \<noteq> []" and nes: "src_site \<noteq> []" by code_simp+
  show "fix_urls html ''/'' = html"
    if "\<not> contains html href_site \<and> \<not> contains html src_site"
    using that by (simp add: fix_urls_root str_replace_absent[OF neh] str_replace_absent[OF nes])
  show "fix_urls (a @ (href_root @ ''about'' @ dq) @ b) ''/''
       = fix_urls a ''/'' @ (href_root @ ''about'' @ dq) @ fix_urls b ''/''"
    using fix_urls_isolated[OF about_link_isolated_root] by (simp only: fix_urls_about_link_root)
qed

theorem fix_urls_default_basepath_witness:
  "\<not> contains (href_root @ ''about'' @ dq) href_site
   \<and> \<not> contains (href_root @ ''about'' @ dq) src_site
   \<and> fix_urls (href_root @ ''about'' @ dq) ''/'' = href_root @ ''about'' @ dq"
proof -
  have h: "\<not> contains (href_root @ ''about'' @ dq) href_site
     \<and> \<not> contains (href_root @ ''about'' @ dq) src_site"
    by code_simp
  show ?thesis
    using h fix_urls_default_basepath[where html = "href_root @ ''about'' @ dq"] by blast
qed

text \<open>
  The rewriting is not the identity on every text: the marker is replaced by
  the base path \<^verbatim>\<open>/\<close> as well.
\<close>

theorem fix_urls_default_basepath_counterexample:
  "fix_urls (href_site @ ''/style.css'' @ dq) (normalize_basepath ''/'')
     = href_open @ ''//style.css'' @ dq
   \<and> fix_urls (href_site @ ''/style.css'' @ dq) (normalize_basepath ''/'')
       \<noteq> href_site @ ''/style.css'' @ dq"
  by code_simp

section \<open>A title that holds the content token\<close>

text \<open>
  Claim C9. The title is substituted before the content, on the same string.
  So when the title itself holds \<^verbatim>\<open>{{ Content }}\<close>, that occurrence, once the
  title stands in the template, is replaced by the rendered body like any
  other. The order shows the other way round as well: a \<^verbatim>\<open>{{ Title }}\<close> in
  the rendered body is never replaced, since the title pass is over when the
  body comes in.
\<close>

theorem title_with_content_token:
  "substitute (a @ title_token @ b) (t1 @ content_token @ t2) html_content
     = str_replace (str_replace a title_token (t1 @ content_token @ t2) @ t1) content_token html_content
       @ html_content
       @ str_replace (t2 @ str_replace b title_token (t1 @ content_token @ t2)) content_token html_content
   \<and> substitute content_token title html_content = html_content"
proof
  have ne: "title_token \<noteq> []" by (simp add: title_token_def)
  have nec: "content_token \<noteq> []" by (simp add: content_token_def)
  let ?t = "t1 @ content_token @ t2"
  have "str_replace (a @ title_token @ b) title_token ?t
      = (str_replace a title_token ?t @ t1) @ content_token @ (t2 @ str_replace b title_token ?t)"
    by (simp add: str_replace_occurrence[OF ne border_free_title_token])
  then show "substitute (a @ title_token @ b) ?t html_content
     = str_replace (str_replace a title_token ?t @ t1) content_token html_content
       @ html_content
       @ str_replace (t2 @ str_replace b title_token ?t) content_token html_content"
    unfolding substitute_def by (simp only: str_replace_occurrence[OF nec border_free_content_token])
  have "\<not> contains content_token title_token" by code_simp
  then have "str_replace content_token title_token title = content_token"
    using ne by (rule str_replace_absent[rotated])
  moreover have "str_replace content_token content_token html_content = html_content"
    using str_replace_prefix[OF nec, of "[]" html_content] nec by simp
  ultimately show "substitute content_token title html_content = html_content"
    by (simp add: substitute_def)
qed

section \<open>Base path normalization\<close>

text \<open>
  Claim C10. A base path that does not end with a slash gets one appended. The
  empty base path therefore becomes \<^verbatim>\<open>/\<close>, and \<open>generate_page\<close> with the
  empty base path does exactly what it does with \<^verbatim>\<open>/\<close>: same result, same
  file system.
\<close>

theorem normalize_basepath_empty:
  "(\<not> endswith basepath ''/'' \<longrightarrow> normalize_basepath basepath = basepath @ ''/'')
   \<and> generate_page render fs input_path template_path output_path ''''
       = generate_page render fs input_path template_path output_path ''/''"
proof -
  have "normalize_basepath '''' = normalize_basepath ''/''"
    by (simp add: normalize_basepath_def endswith_def)
  then have "page_html template title html_content '''' = page_html template title html_content ''/''"
    for template title html_content
    by (simp add: page_html_def)
  then have "generate_page render fs input_path template_path output_path ''''
       = generate_page render fs input_path template_path output_path ''/''"
    by (simp add: generate_page_def split: sum.splits)
  then show ?thesis by (simp add: normalize_basepath_def)
qed

theorem normalize_basepath_empty_witness:
  "\<not> endswith ''myrepo'' ''/'' \<and> normalize_basepath ''myrepo'' = ''myrepo/''"
  using normalize_basepath_empty[of "''myrepo''"] by (simp add: endswith_def)

end
